theory Spec2Isabelle
  imports Main "HOL-Library.Word"
begin

section \<open>Data model: bytes, sizes, pointers and buffer views\<close>

text \<open>
  A buffer view of \<^verbatim>\<open>neo/detail/buffer_base.hpp\<close> is a pointer and a
  \<^verbatim>\<open>std::size_t\<close>. Sizes are 64-bit words, so that every \<^verbatim>\<open>+=\<close> and
  \<^verbatim>\<open>-=\<close> of the source wraps as it does in C++; that the engine's
  counters never wrap is proved, not assumed. A pointer is an address
  into a byte store; the store is passed explicitly, since \<^verbatim>\<open>buffer_copy\<close>
  writes through the destination's pointers and two views may denote the
  same bytes. \<^verbatim>\<open>mutable_buffer\<close> and \<^verbatim>\<open>const_buffer\<close> both instantiate
  \<^verbatim>\<open>buffer_base\<close> and differ only in the constness of the pointer, so both
  are the one record below, and the overload of \<^verbatim>\<open>buffer_copy\<close> for a mutable
  source, which converts and calls the one for a read-only source, is the
  same function. The sequences themselves are values outside the store.
\<close>

type_synonym byte = "8 word"
type_synonym size_t = "64 word"
type_synonym pointer = nat
type_synonym memory = "pointer \<Rightarrow> byte"

record buffer =
  buf_data :: pointer
  buf_size :: size_t

type_synonym mutable_buffer = buffer
type_synonym const_buffer = buffer

text \<open>
  \<^verbatim>\<open>remove_prefix\<close> asserts \<^verbatim>\<open>n <= size()\<close> before it moves the pointer
  and shrinks the size; a failed assertion is the value \<open>None\<close>.
  \<^verbatim>\<open>operator+=\<close> calls it, and \<^verbatim>\<open>operator+\<close> applies \<^verbatim>\<open>+=\<close> to a copy.
  \<^verbatim>\<open>first\<close>, \<^verbatim>\<open>last\<close> and \<^verbatim>\<open>split\<close> assert in the same way.
\<close>

definition remove_prefix :: "buffer \<Rightarrow> size_t \<Rightarrow> buffer option" where
  "remove_prefix b n =
     (if n \<le> buf_size b
      then Some \<lparr>buf_data = buf_data b + unat n, buf_size = buf_size b - n\<rparr>
      else None)"

definition buffer_plus :: "buffer \<Rightarrow> size_t \<Rightarrow> buffer option" where
  "buffer_plus buf s = remove_prefix buf s"

definition first_b :: "buffer \<Rightarrow> size_t \<Rightarrow> buffer option" where
  "first_b b s =
     (if s \<le> buf_size b then Some \<lparr>buf_data = buf_data b, buf_size = s\<rparr> else None)"

definition last_b :: "buffer \<Rightarrow> size_t \<Rightarrow> buffer option" where
  "last_b b s =
     (if s \<le> buf_size b then buffer_plus b (buf_size b - s) else None)"

definition split_b :: "buffer \<Rightarrow> size_t \<Rightarrow> (buffer \<times> buffer) option" where
  "split_b b part =
     (if part \<le> buf_size b
      then (case first_b b part of
              None \<Rightarrow> None
            | Some left \<Rightarrow>
                (case last_b b (buf_size b - part) of
                   None \<Rightarrow> None
                 | Some right \<Rightarrow> Some (left, right)))
      else None)"

text \<open>The addresses a view denotes, in order, and the bytes it shows in a store.\<close>

definition buf_addrs :: "buffer \<Rightarrow> pointer list" where
  "buf_addrs b = [buf_data b ..< buf_data b + unat (buf_size b)]"

definition seq_addrs :: "buffer list \<Rightarrow> pointer list" where
  "seq_addrs bs = concat (map buf_addrs bs)"

definition seq_bytes :: "memory \<Rightarrow> buffer list \<Rightarrow> byte list" where
  "seq_bytes mem bs = map mem (seq_addrs bs)"

definition total_size :: "buffer list \<Rightarrow> nat" where
  "total_size bs = sum_list (map (\<lambda>b. unat (buf_size b)) bs)"

section \<open>Bounded copy between two views\<close>

text \<open>
  The loop \<^verbatim>\<open>for (auto r = n_to_copy; r; --r, ++in, ++out) *out = *in;\<close> of
  the single-view \<^verbatim>\<open>buffer_copy\<close>: one byte is read and written per
  iteration, lowest address first.
\<close>

function copy_loop :: "size_t \<Rightarrow> pointer \<Rightarrow> pointer \<Rightarrow> memory \<Rightarrow> memory" where
  "copy_loop r inp out mem =
     (if r = 0 then mem
      else copy_loop (r - 1) (inp + 1) (out + 1) (mem(out := mem inp)))"
  by pat_completeness auto
termination
  by (relation "measure (\<lambda>(r, inp, out, mem). unat r)") (auto simp: unat_minus_one unat_gt_0)

declare copy_loop.simps [simp del]

definition buffer_copy :: "mutable_buffer \<Rightarrow> const_buffer \<Rightarrow> size_t \<Rightarrow> memory \<Rightarrow> size_t \<times> memory" where
  "buffer_copy dest src max_copy mem =
     (let n_to_copy = min (buf_size src) (min (buf_size dest) max_copy)
      in (n_to_copy, copy_loop n_to_copy (buf_data src) (buf_data dest) mem))"

section \<open>The sequence copy engine\<close>

text \<open>
  The local variables of the sequence overload. An iterator is the part of
  the sequence it has not passed yet: it equals the end iterator when that
  list is empty, \<^verbatim>\<open>*it\<close> is the head and \<^verbatim>\<open>++it\<close> the tail.
\<close>

record copy_state =
  remaining_to_copy :: size_t
  total_copied :: size_t
  dest_iter :: "buffer list"
  src_iter :: "buffer list"
  src_offset :: size_t
  dest_offset :: size_t
  heap :: memory

definition copy_init :: "buffer list \<Rightarrow> buffer list \<Rightarrow> size_t \<Rightarrow> memory \<Rightarrow> copy_state" where
  "copy_init dest src max_copy mem =
     \<lparr>remaining_to_copy = max_copy, total_copied = 0,
      dest_iter = dest, src_iter = src,
      src_offset = 0, dest_offset = 0, heap = mem\<rparr>"

definition loop_cond :: "copy_state \<Rightarrow> bool" where
  "loop_cond s = (dest_iter s \<noteq> [] \<and> src_iter s \<noteq> [] \<and> remaining_to_copy s \<noteq> 0)"

text \<open>
  One pass through the body of the \<^verbatim>\<open>while\<close> loop. It is only run under
  \<open>loop_cond\<close>, so both iterators can be dereferenced; \<open>None\<close> is the failed
  assertion of \<^verbatim>\<open>remove_prefix\<close>, reached through \<^verbatim>\<open>operator+\<close>.
\<close>

definition loop_body :: "copy_state \<Rightarrow> copy_state option" where
  "loop_body s =
     (case (src_iter s, dest_iter s) of
        (sb # srest, db # drest) \<Rightarrow>
          (case buffer_plus sb (src_offset s) of
             None \<Rightarrow> None
           | Some src_buf \<Rightarrow>
               (case buffer_plus db (dest_offset s) of
                  None \<Rightarrow> None
                | Some dest_buf \<Rightarrow>
                    (let (n_copied, mem') =
                           buffer_copy dest_buf src_buf (remaining_to_copy s) (heap s);
                         s1 = s\<lparr>total_copied := total_copied s + n_copied,
                                remaining_to_copy := remaining_to_copy s - n_copied,
                                src_offset := src_offset s + n_copied,
                                dest_offset := dest_offset s + n_copied,
                                heap := mem'\<rparr>;
                         s2 = (if buf_size src_buf = n_copied
                               then s1\<lparr>src_iter := srest, src_offset := 0\<rparr> else s1);
                         s3 = (if buf_size dest_buf = n_copied
                               then s2\<lparr>dest_iter := drest, dest_offset := 0\<rparr> else s2)
                     in Some s3)))
      | _ \<Rightarrow> None)"

definition loop_measure :: "copy_state \<Rightarrow> nat" where
  "loop_measure s = length (dest_iter s) + length (src_iter s) + unat (remaining_to_copy s)"

text \<open>
  What one pass does to the local variables, with the inner copy unfolded:
  \<open>n\<close> is the count the inner \<^verbatim>\<open>buffer_copy\<close> returns.
\<close>

lemma loop_body_Some:
  assumes "loop_cond s" and "loop_body s = Some s'"
  shows "\<exists>sb srest db drest src_buf dest_buf n.
           src_iter s = sb # srest \<and> dest_iter s = db # drest
           \<and> buffer_plus sb (src_offset s) = Some src_buf
           \<and> buffer_plus db (dest_offset s) = Some dest_buf
           \<and> n = min (buf_size src_buf) (min (buf_size dest_buf) (remaining_to_copy s))
           \<and> total_copied s' = total_copied s + n
           \<and> remaining_to_copy s' = remaining_to_copy s - n
           \<and> heap s' = copy_loop n (buf_data src_buf) (buf_data dest_buf) (heap s)
           \<and> src_iter s' = (if buf_size src_buf = n then srest else sb # srest)
           \<and> src_offset s' = (if buf_size src_buf = n then 0 else src_offset s + n)
           \<and> dest_iter s' = (if buf_size dest_buf = n then drest else db # drest)
           \<and> dest_offset s' = (if buf_size dest_buf = n then 0 else dest_offset s + n)"
proof -
  from assms(1) obtain sb srest db drest where
    it: "src_iter s = sb # srest" "dest_iter s = db # drest"
    by (auto simp: loop_cond_def neq_Nil_conv)
  from assms(2) it obtain src_buf dest_buf where
    sb: "buffer_plus sb (src_offset s) = Some src_buf" and
    db: "buffer_plus db (dest_offset s) = Some dest_buf"
    by (auto simp: loop_body_def split: option.splits)
  from assms(2) it sb db show ?thesis
    by (auto simp: loop_body_def buffer_copy_def Let_def)
qed

lemma loop_body_measure:
  assumes "loop_cond s" and "loop_body s = Some s'"
  shows "loop_measure s' < loop_measure s"
proof -
  from loop_body_Some [OF assms] obtain sb srest db drest and src_buf dest_buf :: buffer and n where
    it: "src_iter s = sb # srest" "dest_iter s = db # drest"
    and n: "n = min (buf_size src_buf) (min (buf_size dest_buf) (remaining_to_copy s))"
    and r': "remaining_to_copy s' = remaining_to_copy s - n"
    and si: "src_iter s' = (if buf_size src_buf = n then srest else sb # srest)"
    and di: "dest_iter s' = (if buf_size dest_buf = n then drest else db # drest)"
    by blast
  from assms(1) have r: "remaining_to_copy s \<noteq> 0" by (simp add: loop_cond_def)
  have nle: "n \<le> remaining_to_copy s" by (simp add: n min_le_iff_disj)
  then have sub: "unat (remaining_to_copy s - n) = unat (remaining_to_copy s) - unat n"
    by (simp add: unat_sub)
  have pos: "0 < unat (remaining_to_copy s)" using r by (simp add: unat_gt_0)
  have nle': "unat n \<le> unat (remaining_to_copy s)" using nle by (simp add: word_le_nat_alt)
  show ?thesis
  proof (cases "n = 0")
    case True
    with r n have "buf_size src_buf = n \<or> buf_size dest_buf = n"
      by (auto simp: min_def split: if_splits)
    with True it r' si di show ?thesis
      by (auto simp: loop_measure_def)
  next
    case False
    then have "0 < unat n" by (simp add: unat_gt_0)
    with it r' si di sub nle' pos show ?thesis
      by (auto simp: loop_measure_def)
  qed
qed

function buffer_copy_loop :: "copy_state \<Rightarrow> copy_state option" where
  "buffer_copy_loop s =
     (if loop_cond s
      then (case loop_body s of None \<Rightarrow> None | Some s' \<Rightarrow> buffer_copy_loop s')
      else Some s)"
  by pat_completeness auto
termination
  by (relation "measure loop_measure") (simp_all add: loop_body_measure)

declare buffer_copy_loop.simps [simp del]

definition buffer_copy_seq ::
  "buffer list \<Rightarrow> buffer list \<Rightarrow> size_t \<Rightarrow> memory \<Rightarrow> (size_t \<times> memory) option" where
  "buffer_copy_seq dest src max_copy mem =
     (case buffer_copy_loop (copy_init dest src max_copy mem) of
        None \<Rightarrow> None
      | Some s \<Rightarrow> Some (total_copied s, heap s))"

text \<open>
  The states at the top of each iteration the loop executes, first to last.
\<close>

function loop_states :: "copy_state \<Rightarrow> copy_state list" where
  "loop_states s =
     (if loop_cond s
      then s # (case loop_body s of None \<Rightarrow> [] | Some s' \<Rightarrow> loop_states s')
      else [])"
  by pat_completeness auto
termination
  by (relation "measure loop_measure") (simp_all add: loop_body_measure)

declare loop_states.simps [simp del]

section \<open>The exhaustive entry point\<close>

text \<open>
  Modelled from the spec: \<^verbatim>\<open>buffer_size\<close> of \<^verbatim>\<open>buffer_algorithm/size.hpp\<close>,
  which is not among the sources. The spec defines it as the sum of
  \<^verbatim>\<open>size()\<close> over all views of the sequence, returned as an unsigned
  length; the sum is taken in \<^verbatim>\<open>std::size_t\<close>, as the caller's use of the
  result as \<^verbatim>\<open>max_copy\<close> requires.
\<close>

definition buffer_size :: "buffer list \<Rightarrow> size_t" where
  "buffer_size bs = sum_list (map buf_size bs)"

definition buffer_copy_all ::
  "buffer list \<Rightarrow> buffer list \<Rightarrow> memory \<Rightarrow> (size_t \<times> memory) option" where
  "buffer_copy_all dest src mem =
     (let src_size = buffer_size src;
          dest_size = buffer_size dest;
          min_size = (if src_size > dest_size then dest_size else src_size)
      in buffer_copy_seq dest src min_size mem)"

text \<open>
  Modelled from the spec: \<^verbatim>\<open>single_buffer_iter\<close> of
  \<^verbatim>\<open>detail/single_buffer_iter.hpp\<close>, which is not among the sources.
  \<^verbatim>\<open>buffer_sequence_begin(b)\<close> and \<^verbatim>\<open>buffer_sequence_end(b)\<close> of
  \<^verbatim>\<open>buffer_base\<close> return it and its sentinel; by the spec a single view
  is usable as a one-element sequence.
\<close>

definition single_buffer_seq :: "buffer \<Rightarrow> buffer list" where
  "single_buffer_seq b = [b]"

section \<open>Vocabulary of the properties\<close>

text \<open>
  The byte assignments \<^verbatim>\<open>*out = *in\<close> of a copy, as a list of
  (destination address, source address) pairs carried out first to last on
  the store. A later assignment reads what an earlier one wrote, which is
  what happens in the source when views overlap.
\<close>

definition copy_bytes :: "(pointer \<times> pointer) list \<Rightarrow> memory \<Rightarrow> memory" where
  "copy_bytes ps mem = fold (\<lambda>(out, inp) m. m(out := m inp)) ps mem"

text \<open>
  The cursor of one side of the copy engine: an offset into the buffer the
  iterator points to. \<open>rest_addrs\<close> lists the addresses the cursor has not
  consumed yet.
\<close>

definition cursor_ok :: "size_t \<Rightarrow> buffer list \<Rightarrow> bool" where
  "cursor_ok off it = (case it of [] \<Rightarrow> off = 0 | b # _ \<Rightarrow> off = 0 \<or> off < buf_size b)"

definition state_inv :: "copy_state \<Rightarrow> bool" where
  "state_inv s = (cursor_ok (src_offset s) (src_iter s) \<and> cursor_ok (dest_offset s) (dest_iter s))"

definition rest_addrs :: "size_t \<Rightarrow> buffer list \<Rightarrow> pointer list" where
  "rest_addrs off it = drop (unat off) (seq_addrs it)"

definition src_rest :: "copy_state \<Rightarrow> pointer list" where
  "src_rest s = rest_addrs (src_offset s) (src_iter s)"

definition dest_rest :: "copy_state \<Rightarrow> pointer list" where
  "dest_rest s = rest_addrs (dest_offset s) (dest_iter s)"

definition copy_count :: "copy_state \<Rightarrow> nat" where
  "copy_count s = min (length (dest_rest s)) (min (length (src_rest s)) (unat (remaining_to_copy s)))"

definition copied_total :: "buffer list \<Rightarrow> buffer list \<Rightarrow> size_t \<Rightarrow> nat" where
  "copied_total dest src max_copy = min (total_size dest) (min (total_size src) (unat max_copy))"

text \<open>
  The two readings of the loop invariant on the offsets: strictly inside
  the current buffer, or inside it unless that buffer has no bytes at all.
\<close>

definition offsets_strict :: "copy_state \<Rightarrow> bool" where
  "offsets_strict s =
     (src_offset s < buf_size (hd (src_iter s)) \<and> dest_offset s < buf_size (hd (dest_iter s)))"

definition offset_within :: "size_t \<Rightarrow> buffer \<Rightarrow> bool" where
  "offset_within off b = (off < buf_size b \<or> (buf_size b = 0 \<and> off = 0))"

text \<open>
  A sequence without its zero-length buffers.
\<close>

definition remove_empty :: "buffer list \<Rightarrow> buffer list" where
  "remove_empty bs = filter (\<lambda>b. buf_size b \<noteq> 0) bs"

text \<open>
  Content fidelity of a sequence copy that returned \<open>n\<close>: the first \<open>n\<close> logical
  bytes of the destination are the first \<open>n\<close> logical bytes the source held
  before the call, the destination's later bytes are as before, and so is
  every byte of the source.
\<close>

definition content_fidelity :: "buffer list \<Rightarrow> buffer list \<Rightarrow> size_t \<Rightarrow> memory \<Rightarrow> bool" where
  "content_fidelity dest src max_copy mem =
     (case buffer_copy_seq dest src max_copy mem of
        None \<Rightarrow> False
      | Some (n, mem') \<Rightarrow>
          take (unat n) (seq_bytes mem' dest) = take (unat n) (seq_bytes mem src)
          \<and> drop (unat n) (seq_bytes mem' dest) = drop (unat n) (seq_bytes mem dest)
          \<and> seq_bytes mem' src = seq_bytes mem src)"

text \<open>
  The same for the single-view copy: it returned the least of the two sizes
  and the limit, and the first \<open>n\<close> bytes of the destination are the first
  \<open>n\<close> bytes the source held before the call.
\<close>

definition view_copy_fidelity :: "buffer \<Rightarrow> buffer \<Rightarrow> size_t \<Rightarrow> memory \<Rightarrow> bool" where
  "view_copy_fidelity dest src max_copy mem =
     (case buffer_copy dest src max_copy mem of
        (n, mem') \<Rightarrow>
          n = min (buf_size src) (min (buf_size dest) max_copy)
          \<and> map mem' (take (unat n) (buf_addrs dest)) = map mem (take (unat n) (buf_addrs src)))"

text \<open>
  The exhaustive copy returned the smaller of the two total sizes.
\<close>

definition exhaustive_count :: "buffer list \<Rightarrow> buffer list \<Rightarrow> memory \<Rightarrow> bool" where
  "exhaustive_count dest src mem =
     (case buffer_copy_all dest src mem of
        None \<Rightarrow> False
      | Some (n, mem') \<Rightarrow> unat n = min (total_size dest) (total_size src))"

text \<open>
  A store to run examples in: the byte at address \<open>a\<close> holds \<open>a mod 256\<close>.
\<close>

definition iota_mem :: memory where
  "iota_mem a = of_nat a"

section \<open>Word arithmetic of the sizes\<close>

lemma unat_diff_le: "(n::size_t) \<le> m \<Longrightarrow> unat (m - n) = unat m - unat n"
  by (simp add: unat_sub)

lemma word_diff_le_self: "(n::size_t) \<le> m \<Longrightarrow> m - n \<le> m"
  by (simp add: word_le_nat_alt unat_sub)

lemma unat_min: "unat (min (a::size_t) b) = min (unat a) (unat b)"
  by (simp add: min_def word_le_nat_alt)

lemma unat_of_nat_le:
  assumes "n \<le> unat (m::size_t)"
  shows "unat (of_nat n :: size_t) = n"
  using assms by (rule le_unat_uoi)

lemma upt_add_Suc: "[a ..< a + Suc k] = a # [a + 1 ..< a + 1 + k]"
  by (simp add: upt_conv_Cons del: upt_Suc)

section \<open>The bytes a copy writes\<close>

lemma copy_bytes_Nil [simp]: "copy_bytes [] mem = mem"
  by (simp add: copy_bytes_def)

lemma copy_bytes_Cons [simp]:
  "copy_bytes ((out, inp) # ps) mem = copy_bytes ps (mem(out := mem inp))"
  by (simp add: copy_bytes_def)

lemma copy_bytes_append:
  "copy_bytes (ps @ qs) mem = copy_bytes qs (copy_bytes ps mem)"
  by (simp add: copy_bytes_def)

lemma copy_bytes_outside:
  "a \<notin> set (map fst ps) \<Longrightarrow> copy_bytes ps mem a = mem a"
  by (induction ps arbitrary: mem) (auto simp: copy_bytes_def)

lemma copy_bytes_self: "copy_bytes (zip xs xs) mem = mem"
  by (induction xs arbitrary: mem) simp_all

lemma copy_bytes_disjoint_nth:
  assumes "distinct (map fst ps)" and "set (map fst ps) \<inter> set (map snd ps) = {}"
    and "i < length ps"
  shows "copy_bytes ps mem (fst (ps ! i)) = mem (snd (ps ! i))"
  using assms
proof (induction ps arbitrary: mem i)
  case Nil
  then show ?case by simp
next
  case (Cons p ps)
  obtain out inp where p: "p = (out, inp)" by (cases p)
  from Cons.prems have d: "distinct (map fst ps)" and o: "out \<notin> set (map fst ps)"
    and x: "set (map fst ps) \<inter> set (map snd ps) = {}"
    and ni: "out \<notin> set (map snd ps)" "out \<noteq> inp"
    by (auto simp: p)
  show ?case
  proof (cases i)
    case 0
    with o show ?thesis by (simp add: p copy_bytes_outside)
  next
    case (Suc j)
    with Cons.prems have j: "j < length ps" by simp
    then have "snd (ps ! j) \<in> set (map snd ps)" by (metis length_map nth_map nth_mem)
    with ni have ne: "snd (ps ! j) \<noteq> out" by auto
    have "copy_bytes ps (mem(out := mem inp)) (fst (ps ! j)) = (mem(out := mem inp)) (snd (ps ! j))"
      by (rule Cons.IH [OF d x j])
    also have "\<dots> = mem (snd (ps ! j))" using ne by simp
    finally show ?thesis by (simp add: p Suc)
  qed
qed

lemma copy_bytes_forward_nth:
  assumes "d \<le> s \<or> s + n \<le> d" and "i < n"
  shows "copy_bytes (zip [d ..< d + n] [s ..< s + n]) mem (d + i) = mem (s + i)"
  using assms
proof (induction n arbitrary: d s mem i)
  case 0
  then show ?case by simp
next
  case (Suc n)
  have z: "zip [d ..< d + Suc n] [s ..< s + Suc n]
             = (d, s) # zip [d + 1 ..< d + 1 + n] [s + 1 ..< s + 1 + n]"
    by (simp only: upt_add_Suc zip_Cons_Cons)
  show ?case
  proof (cases i)
    case 0
    have "d \<notin> set (map fst (zip [d + 1 ..< d + 1 + n] [s + 1 ..< s + 1 + n]))"
      by (auto dest: set_zip_leftD)
    then have "copy_bytes (zip [d + 1 ..< d + 1 + n] [s + 1 ..< s + 1 + n]) (mem(d := mem s)) d
                 = (mem(d := mem s)) d"
      by (rule copy_bytes_outside)
    then show ?thesis
      unfolding z 0 by simp
  next
    case (Suc j)
    with Suc.prems have j: "j < n" by simp
    from Suc.prems have c: "d + 1 \<le> s + 1 \<or> s + 1 + n \<le> d + 1" by auto
    from Suc.prems j have ne: "s + 1 + j \<noteq> d" by auto
    have "copy_bytes (zip [d + 1 ..< d + 1 + n] [s + 1 ..< s + 1 + n]) (mem(d := mem s)) (d + 1 + j)
            = (mem(d := mem s)) (s + 1 + j)"
      by (rule Suc.IH [OF c j])
    also have "\<dots> = mem (s + 1 + j)" using ne by simp
    finally show ?thesis
      unfolding z Suc by simp
  qed
qed

lemma map_fst_take_zip:
  assumes "n \<le> length xs" and "n \<le> length ys"
  shows "map fst (take n (zip xs ys)) = take n xs"
    and "map snd (take n (zip xs ys)) = take n ys"
  using assms by (simp_all add: take_zip)

lemma copy_bytes_take_disjoint:
  fixes mem :: memory
  assumes dist: "distinct D" and disj: "set D \<inter> set S = {}"
    and n: "n \<le> length D" "n \<le> length S"
  defines "mem' \<equiv> copy_bytes (take n (zip D S)) mem"
  shows "take n (map mem' D) = take n (map mem S)"
    and "drop n (map mem' D) = drop n (map mem D)"
    and "map mem' S = map mem S"
proof -
  let ?ps = "take n (zip D S)"
  have fst: "map fst ?ps = take n D" and snd: "map snd ?ps = take n S"
    using n by (rule map_fst_take_zip)+
  have len: "length ?ps = n" using n by simp
  have d: "distinct (map fst ?ps)"
    using dist by (simp only: fst distinct_take)
  have x: "set (map fst ?ps) \<inter> set (map snd ?ps) = {}"
    using disj set_take_subset [of n D] set_take_subset [of n S]
    by (simp only: fst snd) blast
  show "take n (map mem' D) = take n (map mem S)"
  proof (rule nth_equalityI)
    show "length (take n (map mem' D)) = length (take n (map mem S))"
      using n by simp
  next
    fix i assume "i < length (take n (map mem' D))"
    with n have i: "i < n" by simp
    with len have il: "i < length ?ps" by simp
    have "fst (?ps ! i) = D ! i" "snd (?ps ! i) = S ! i"
      using i n by simp_all
    with copy_bytes_disjoint_nth [OF d x il, of mem]
    have "mem' (D ! i) = mem (S ! i)" by (simp add: mem'_def)
    with i n show "take n (map mem' D) ! i = take n (map mem S) ! i" by simp
  qed
  have out: "mem' a = mem a" if "a \<notin> set (take n D)" for a
  proof -
    have "a \<notin> set (map fst ?ps)" unfolding fst by (rule that)
    then show ?thesis unfolding mem'_def by (rule copy_bytes_outside)
  qed
  have "set (take n D) \<inter> set (drop n D) = {}"
    using dist by (metis append_take_drop_id distinct_append)
  then have "\<forall>a \<in> set (drop n D). mem' a = mem a"
    using out by blast
  then show "drop n (map mem' D) = drop n (map mem D)"
    by (simp add: drop_map)
  have "\<forall>a \<in> set S. a \<notin> set (take n D)"
    using disj set_take_subset [of n D] by blast
  then show "map mem' S = map mem S"
    using out by simp
qed

lemma take_zip_append:
  assumes "k \<le> length xs" and "k \<le> length ys"
  shows "take k (zip (xs @ xs') (ys @ ys')) = take k (zip xs ys)"
  using assms by (simp add: take_zip)

subsection \<open>The single-view loop\<close>

lemma copy_loop_bytes:
  "copy_loop r inp out mem = copy_bytes (zip [out ..< out + unat r] [inp ..< inp + unat r]) mem"
proof (induction r inp out mem rule: copy_loop.induct)
  case (1 r inp out mem)
  show ?case
  proof (cases "r = 0")
    case True
    then show ?thesis by (simp add: copy_loop.simps)
  next
    case False
    then have u: "unat r = Suc (unat (r - 1))"
      by (simp add: unat_minus_one unat_gt_0)
    have "copy_loop r inp out mem = copy_loop (r - 1) (inp + 1) (out + 1) (mem(out := mem inp))"
      using False by (subst copy_loop.simps) simp
    also have "\<dots> = copy_bytes (zip [out + 1 ..< out + 1 + unat (r - 1)]
                                     [inp + 1 ..< inp + 1 + unat (r - 1)]) (mem(out := mem inp))"
      using False by (rule "1.IH")
    also have "\<dots> = copy_bytes (zip [out ..< out + unat r] [inp ..< inp + unat r]) mem"
      by (simp only: u upt_add_Suc zip_Cons_Cons copy_bytes_Cons)
    finally show ?thesis .
  qed
qed

lemma buf_addrs_length [simp]: "length (buf_addrs b) = unat (buf_size b)"
  by (simp add: buf_addrs_def)

lemma seq_addrs_length: "length (seq_addrs bs) = total_size bs"
  by (induction bs) (simp_all add: seq_addrs_def total_size_def)

lemma seq_addrs_Nil [simp]: "seq_addrs [] = []"
  by (simp add: seq_addrs_def)

lemma seq_addrs_Cons [simp]: "seq_addrs (b # bs) = buf_addrs b @ seq_addrs bs"
  by (simp add: seq_addrs_def)

lemma buffer_copy_bytes:
  "buffer_copy dest src max_copy mem =
     (min (buf_size src) (min (buf_size dest) max_copy),
      copy_bytes (take (unat (min (buf_size src) (min (buf_size dest) max_copy)))
                   (zip (buf_addrs dest) (buf_addrs src))) mem)"
proof -
  define n where "n = min (buf_size src) (min (buf_size dest) max_copy)"
  have le: "unat n \<le> unat (buf_size src)" "unat n \<le> unat (buf_size dest)"
    by (simp_all add: n_def unat_min)
  then have "take (unat n) (zip (buf_addrs dest) (buf_addrs src))
        = zip [buf_data dest ..< buf_data dest + unat n] [buf_data src ..< buf_data src + unat n]"
    by (simp add: take_zip buf_addrs_def)
  then show ?thesis
    by (simp add: buffer_copy_def Let_def copy_loop_bytes n_def)
qed

lemma remove_prefix_addrs:
  assumes "n \<le> buf_size b"
  shows "\<exists>b'. buffer_plus b n = Some b' \<and> buf_addrs b' = drop (unat n) (buf_addrs b)
           \<and> buf_size b' = buf_size b - n
           \<and> unat (buf_size b') = unat (buf_size b) - unat n"
proof -
  from assms have le: "unat n \<le> unat (buf_size b)" by (simp add: word_le_nat_alt)
  have "drop (unat n) [buf_data b ..< buf_data b + unat (buf_size b)]
          = [buf_data b + unat n ..< buf_data b + unat (buf_size b)]"
    by simp
  with assms le show ?thesis
    by (simp add: buffer_plus_def remove_prefix_def buf_addrs_def unat_sub)
qed

subsection \<open>One pass of the engine\<close>

text \<open>
  The engine keeps each offset at zero or strictly inside the buffer its
  iterator points to. Under that invariant a pass copies \<open>k\<close> bytes, where
  \<open>k\<close> is the least of what is left of the two current buffers and of the
  quota, and moves both cursors \<open>k\<close> addresses on.
\<close>

lemma cursor_ok_le: "cursor_ok off (b # rest) \<Longrightarrow> off \<le> buf_size b"
  by (auto simp: cursor_ok_def)

lemma cursor_ok_zero [simp]: "cursor_ok 0 it"
  by (simp add: cursor_ok_def split: list.split)

lemma cursor_ok_within:
  "cursor_ok off (b # rest) \<Longrightarrow> offset_within off b"
  by (auto simp: cursor_ok_def offset_within_def word_gt_0)

lemma cursor_advance:
  assumes ok: "cursor_ok off (b # rest)"
  shows "\<exists>b'. buffer_plus b off = Some b'
           \<and> rest_addrs off (b # rest) = buf_addrs b' @ seq_addrs rest
           \<and> (\<forall>n. n \<le> buf_size b' \<longrightarrow>
                 cursor_ok (if buf_size b' = n then 0 else off + n)
                           (if buf_size b' = n then rest else b # rest)
               \<and> rest_addrs (if buf_size b' = n then 0 else off + n)
                             (if buf_size b' = n then rest else b # rest)
                   = drop (unat n) (rest_addrs off (b # rest)))"
proof -
  from ok have le: "off \<le> buf_size b" by (rule cursor_ok_le)
  then have ule: "unat off \<le> unat (buf_size b)" by (simp add: word_le_nat_alt)
  from remove_prefix_addrs [OF le] obtain b' where
    b': "buffer_plus b off = Some b'"
    and addrs: "buf_addrs b' = drop (unat off) (buf_addrs b)"
    and size: "unat (buf_size b') = unat (buf_size b) - unat off"
    by blast
  have rest: "rest_addrs off (b # rest) = buf_addrs b' @ seq_addrs rest"
    using ule by (simp add: rest_addrs_def addrs)
  have step: "cursor_ok (if buf_size b' = n then 0 else off + n)
                        (if buf_size b' = n then rest else b # rest)
            \<and> rest_addrs (if buf_size b' = n then 0 else off + n)
                          (if buf_size b' = n then rest else b # rest)
                = drop (unat n) (rest_addrs off (b # rest))"
    if n: "n \<le> buf_size b'" for n
  proof (cases "buf_size b' = n")
    case True
    have "drop (length (buf_addrs b')) (buf_addrs b' @ seq_addrs rest) = seq_addrs rest"
      by (simp del: buf_addrs_length)
    then have "drop (unat n) (rest_addrs off (b # rest)) = seq_addrs rest"
      using True by (simp only: rest buf_addrs_length)
    moreover have "rest_addrs 0 rest = seq_addrs rest"
      by (simp add: rest_addrs_def)
    ultimately show ?thesis
      using True by simp
  next
    case False
    with n have "n < buf_size b'" by simp
    then have lt: "unat n < unat (buf_size b) - unat off"
      by (simp add: word_less_nat_alt size)
    have "unat (buf_size b) < 2 ^ LENGTH(64)" by (rule unsigned_less)
    with lt have "unat off + unat n < 2 ^ LENGTH(64)" by linarith
    then have add: "unat (off + n) = unat off + unat n"
      by (rule unat_add_lem [THEN iffD1])
    with lt have "off + n < buf_size b"
      by (simp add: word_less_nat_alt)
    then have "cursor_ok (off + n) (b # rest)"
      by (simp add: cursor_ok_def)
    moreover have "rest_addrs (off + n) (b # rest) = drop (unat n) (rest_addrs off (b # rest))"
      unfolding rest_addrs_def add by (simp only: drop_drop add.commute)
    ultimately show ?thesis
      using False by simp
  qed
  from b' rest step show ?thesis by blast
qed

lemma loop_body_defined:
  assumes "loop_cond s" and "state_inv s"
  shows "\<exists>s'. loop_body s = Some s'"
proof -
  from assms(1) obtain sb srest db drest where
    it: "src_iter s = sb # srest" "dest_iter s = db # drest"
    by (auto simp: loop_cond_def neq_Nil_conv)
  from assms(2) it have "cursor_ok (src_offset s) (sb # srest)" "cursor_ok (dest_offset s) (db # drest)"
    by (simp_all add: state_inv_def)
  then obtain src_buf dest_buf where
    "buffer_plus sb (src_offset s) = Some src_buf" "buffer_plus db (dest_offset s) = Some dest_buf"
    using cursor_advance by blast
  with it show ?thesis
    by (simp add: loop_body_def Let_def split: prod.split)
qed

lemma loop_body_step:
  assumes c: "loop_cond s" and i: "state_inv s"
  shows "\<exists>s' k. loop_body s = Some s' \<and> state_inv s'
           \<and> k \<le> length (dest_rest s) \<and> k \<le> length (src_rest s)
           \<and> k \<le> unat (remaining_to_copy s)
           \<and> unat (remaining_to_copy s') = unat (remaining_to_copy s) - k
           \<and> total_copied s' = total_copied s + of_nat k
           \<and> src_rest s' = drop k (src_rest s)
           \<and> dest_rest s' = drop k (dest_rest s)
           \<and> heap s' = copy_bytes (take k (zip (dest_rest s) (src_rest s))) (heap s)"
proof -
  from loop_body_defined [OF c i] obtain s' where s': "loop_body s = Some s'" ..
  from loop_body_Some [OF c s'] obtain sb srest db drest src_buf dest_buf n where
    it: "src_iter s = sb # srest" "dest_iter s = db # drest"
    and sb: "buffer_plus sb (src_offset s) = Some src_buf"
    and db: "buffer_plus db (dest_offset s) = Some dest_buf"
    and n: "n = min (buf_size src_buf) (min (buf_size dest_buf) (remaining_to_copy s))"
    and tot: "total_copied s' = total_copied s + n"
    and rem: "remaining_to_copy s' = remaining_to_copy s - n"
    and hp: "heap s' = copy_loop n (buf_data src_buf) (buf_data dest_buf) (heap s)"
    and si: "src_iter s' = (if buf_size src_buf = n then srest else sb # srest)"
    and so: "src_offset s' = (if buf_size src_buf = n then 0 else src_offset s + n)"
    and di: "dest_iter s' = (if buf_size dest_buf = n then drest else db # drest)"
    and d_o: "dest_offset s' = (if buf_size dest_buf = n then 0 else dest_offset s + n)"
    by blast
  have nle: "n \<le> buf_size src_buf" "n \<le> buf_size dest_buf" "n \<le> remaining_to_copy s"
    by (simp_all add: n min_le_iff_disj)
  then have unle: "unat n \<le> unat (buf_size src_buf)" "unat n \<le> unat (buf_size dest_buf)"
    "unat n \<le> unat (remaining_to_copy s)"
    by (simp_all add: word_le_nat_alt)
  from i it have oks: "cursor_ok (src_offset s) (sb # srest)"
    and okd: "cursor_ok (dest_offset s) (db # drest)"
    by (simp_all add: state_inv_def)
  from cursor_advance [OF oks] sb nle(1) have
    srest: "rest_addrs (src_offset s) (sb # srest) = buf_addrs src_buf @ seq_addrs srest"
    and sok: "cursor_ok (src_offset s') (src_iter s')"
    and sdrop: "rest_addrs (src_offset s') (src_iter s')
                  = drop (unat n) (rest_addrs (src_offset s) (sb # srest))"
    by (auto simp: si so)
  from cursor_advance [OF okd] db nle(2) have
    drest: "rest_addrs (dest_offset s) (db # drest) = buf_addrs dest_buf @ seq_addrs drest"
    and dok: "cursor_ok (dest_offset s') (dest_iter s')"
    and ddrop: "rest_addrs (dest_offset s') (dest_iter s')
                  = drop (unat n) (rest_addrs (dest_offset s) (db # drest))"
    by (auto simp: di d_o)
  have inv': "state_inv s'" using sok dok by (simp add: state_inv_def)
  have SR: "src_rest s = buf_addrs src_buf @ seq_addrs srest"
    and DR: "dest_rest s = buf_addrs dest_buf @ seq_addrs drest"
    by (simp_all only: src_rest_def dest_rest_def it srest drest)
  have len: "unat n \<le> length (dest_rest s)" "unat n \<le> length (src_rest s)"
    using unle by (simp_all add: SR DR)
  have rem': "unat (remaining_to_copy s') = unat (remaining_to_copy s) - unat n"
    using nle(3) by (simp add: rem unat_sub)
  have SR': "src_rest s' = drop (unat n) (src_rest s)"
    and DR': "dest_rest s' = drop (unat n) (dest_rest s)"
    by (simp_all only: src_rest_def dest_rest_def it sdrop ddrop)
  have "copy_loop n (buf_data src_buf) (buf_data dest_buf) (heap s)
          = copy_bytes (take (unat n) (zip (buf_addrs dest_buf) (buf_addrs src_buf))) (heap s)"
    using buffer_copy_bytes [of dest_buf src_buf "remaining_to_copy s" "heap s"]
    by (simp add: buffer_copy_def Let_def n)
  also have "take (unat n) (zip (buf_addrs dest_buf) (buf_addrs src_buf))
               = take (unat n) (zip (dest_rest s) (src_rest s))"
    unfolding SR DR using unle by (simp add: take_zip_append)
  finally have hp': "heap s' = copy_bytes (take (unat n) (zip (dest_rest s) (src_rest s))) (heap s)"
    by (simp add: hp)
  have tot': "total_copied s' = total_copied s + of_nat (unat n)"
    by (simp add: tot)
  from s' inv' len unle(3) rem' tot' SR' DR' hp' show ?thesis by blast
qed


subsection \<open>The whole loop\<close>

lemma copy_count_stop: "\<not> loop_cond s \<Longrightarrow> copy_count s = 0"
  by (auto simp: loop_cond_def copy_count_def dest_rest_def src_rest_def rest_addrs_def)

lemma buffer_copy_loop_bytes:
  "state_inv s \<Longrightarrow>
   \<exists>s'. buffer_copy_loop s = Some s'
     \<and> total_copied s' = total_copied s + of_nat (copy_count s)
     \<and> heap s' = copy_bytes (take (copy_count s) (zip (dest_rest s) (src_rest s))) (heap s)"
proof (induction s rule: buffer_copy_loop.induct)
  case (1 s)
  show ?case
  proof (cases "loop_cond s")
    case False
    then show ?thesis
      by (simp add: buffer_copy_loop.simps copy_count_stop)
  next
    case True
    from loop_body_step [OF True "1.prems"] obtain s' k where
      body: "loop_body s = Some s'" and inv': "state_inv s'"
      and k: "k \<le> length (dest_rest s)" "k \<le> length (src_rest s)" "k \<le> unat (remaining_to_copy s)"
      and rem: "unat (remaining_to_copy s') = unat (remaining_to_copy s) - k"
      and tot: "total_copied s' = total_copied s + of_nat k"
      and SR: "src_rest s' = drop k (src_rest s)"
      and DR: "dest_rest s' = drop k (dest_rest s)"
      and hp: "heap s' = copy_bytes (take k (zip (dest_rest s) (src_rest s))) (heap s)"
      by blast
    from "1.IH" [OF True body inv'] obtain s'' where
      loop': "buffer_copy_loop s' = Some s''"
      and tot'': "total_copied s'' = total_copied s' + of_nat (copy_count s')"
      and hp'': "heap s'' = copy_bytes (take (copy_count s') (zip (dest_rest s') (src_rest s'))) (heap s')"
      by blast
    have cnt: "copy_count s = k + copy_count s'"
      using k by (simp add: copy_count_def SR DR rem)
    have loop: "buffer_copy_loop s = Some s''"
      using True body loop' by (subst buffer_copy_loop.simps) simp
    have "take (copy_count s) (zip (dest_rest s) (src_rest s))
            = take k (zip (dest_rest s) (src_rest s))
                @ take (copy_count s') (zip (dest_rest s') (src_rest s'))"
      by (simp only: cnt take_add SR DR drop_zip)
    then have "heap s'' = copy_bytes (take (copy_count s) (zip (dest_rest s) (src_rest s))) (heap s)"
      by (simp add: hp'' hp copy_bytes_append)
    moreover have "total_copied s'' = total_copied s + of_nat (copy_count s)"
      by (simp add: tot'' tot cnt)
    ultimately show ?thesis using loop by blast
  qed
qed


lemma copy_init_inv: "state_inv (copy_init dest src max_copy mem)"
  by (simp add: state_inv_def copy_init_def)

lemma buffer_copy_seq_bytes:
  "buffer_copy_seq dest src max_copy mem =
     Some (of_nat (copied_total dest src max_copy),
           copy_bytes (take (copied_total dest src max_copy)
                        (zip (seq_addrs dest) (seq_addrs src))) mem)"
proof -
  let ?s = "copy_init dest src max_copy mem"
  have c: "copy_count ?s = copied_total dest src max_copy"
    by (simp add: copy_count_def copied_total_def dest_rest_def src_rest_def rest_addrs_def
        copy_init_def seq_addrs_length)
  have r: "dest_rest ?s = seq_addrs dest" "src_rest ?s = seq_addrs src"
    by (simp_all add: dest_rest_def src_rest_def rest_addrs_def copy_init_def)
  from buffer_copy_loop_bytes [OF copy_init_inv, of dest src max_copy mem] obtain s' where
    "buffer_copy_loop ?s = Some s'"
    "total_copied s' = total_copied ?s + of_nat (copy_count ?s)"
    "heap s' = copy_bytes (take (copy_count ?s) (zip (dest_rest ?s) (src_rest ?s))) (heap ?s)"
    by blast
  then show ?thesis
    by (simp add: buffer_copy_seq_def c r) (simp add: copy_init_def)
qed

lemma unat_copied_total:
  "unat (of_nat (copied_total dest src max_copy) :: size_t) = copied_total dest src max_copy"
  by (rule unat_of_nat_le [of _ max_copy]) (simp add: copied_total_def)

lemma loop_states_inv:
  "state_inv s \<Longrightarrow> t \<in> set (loop_states s) \<Longrightarrow> state_inv t \<and> loop_cond t"
proof (induction s rule: loop_states.induct)
  case (1 s)
  show ?case
  proof (cases "loop_cond s")
    case False
    with "1.prems" show ?thesis by (simp add: loop_states.simps)
  next
    case True
    from loop_body_step [OF True "1.prems"(1)] obtain s' where
      body: "loop_body s = Some s'" and inv': "state_inv s'" by blast
    from True body have "loop_states s = s # loop_states s'"
      by (subst loop_states.simps) simp
    with "1.prems" have "t = s \<or> t \<in> set (loop_states s')" by simp
    then show ?thesis
    proof
      assume "t = s"
      with True "1.prems" show ?thesis by simp
    next
      assume "t \<in> set (loop_states s')"
      with "1.IH" [OF True body inv'] show ?thesis by simp
    qed
  qed
qed


subsection \<open>Sizes of sequences\<close>

lemma seq_addrs_remove_empty: "seq_addrs (remove_empty bs) = seq_addrs bs"
  by (induction bs) (simp_all add: remove_empty_def buf_addrs_def)

lemma total_size_remove_empty: "total_size (remove_empty bs) = total_size bs"
  by (simp only: seq_addrs_length [symmetric] seq_addrs_remove_empty)

lemma buffer_size_of_nat: "buffer_size bs = of_nat (total_size bs)"
  by (induction bs) (simp_all add: buffer_size_def total_size_def)

lemma unat_buffer_size_le: "unat (buffer_size bs) \<le> total_size bs"
  by (simp add: buffer_size_of_nat unat_of_nat)

lemma unat_buffer_size_eq:
  "total_size bs < 2 ^ 64 \<Longrightarrow> unat (buffer_size bs) = total_size bs"
  by (simp add: buffer_size_of_nat unat_of_nat)

subsection \<open>Unfolding the model on concrete inputs\<close>

lemmas engine_eval =
  buffer_copy_seq_def buffer_copy_loop.simps loop_states.simps copy_init_def loop_cond_def
  loop_body_def buffer_plus_def remove_prefix_def buffer_copy_def copy_loop.simps Let_def

lemmas bytes_eval = seq_bytes_def seq_addrs_def buf_addrs_def iota_mem_def

section \<open>Properties of the sequence copy\<close>

text \<open>
  C1, as the code has it. The claim is stated for every pair of sequences,
  but the engine assigns byte by byte through the destination pointers and
  has no provision for views that share memory. What holds: when no byte is
  denoted twice by the destination views and none is denoted by both a
  destination and a source view, or when destination and source denote
  exactly the same bytes in the same order, then after
  \<^verbatim>\<open>buffer_copy(dest, src, max_copy)\<close> returns \<open>n\<close> the first \<open>n\<close> logical bytes
  of the destination equal the first \<open>n\<close> logical bytes the source held
  before the call, the destination bytes from position \<open>n\<close> on are
  unmodified and no source byte is modified. With \<open>max_copy = 0\<close> the call
  returns 0 and leaves the whole store unchanged, for all sequences.
\<close>

theorem buffer_copy_seq_content:
  "((distinct (seq_addrs dest) \<and> set (seq_addrs dest) \<inter> set (seq_addrs src) = {})
      \<or> seq_addrs dest = seq_addrs src
      \<longrightarrow> content_fidelity dest src max_copy mem)
   \<and> buffer_copy_seq dest src 0 mem = Some (0, mem)"
proof
  let ?n = "copied_total dest src max_copy"
  show "(distinct (seq_addrs dest) \<and> set (seq_addrs dest) \<inter> set (seq_addrs src) = {})
          \<or> seq_addrs dest = seq_addrs src
          \<longrightarrow> content_fidelity dest src max_copy mem"
  proof
    assume "(distinct (seq_addrs dest) \<and> set (seq_addrs dest) \<inter> set (seq_addrs src) = {})
              \<or> seq_addrs dest = seq_addrs src"
    then show "content_fidelity dest src max_copy mem"
    proof
      assume h: "distinct (seq_addrs dest) \<and> set (seq_addrs dest) \<inter> set (seq_addrs src) = {}"
      have n: "?n \<le> length (seq_addrs dest)" "?n \<le> length (seq_addrs src)"
        by (simp_all add: copied_total_def seq_addrs_length)
      from h have dist: "distinct (seq_addrs dest)"
        and disj: "set (seq_addrs dest) \<inter> set (seq_addrs src) = {}" by simp_all
      note c = copy_bytes_take_disjoint [OF dist disj n, of mem]
      show ?thesis
        using c by (simp add: content_fidelity_def buffer_copy_seq_bytes unat_copied_total seq_bytes_def)
    next
      assume same: "seq_addrs dest = seq_addrs src"
      have "copy_bytes (take ?n (zip (seq_addrs dest) (seq_addrs src))) mem = mem"
        by (simp only: same take_zip copy_bytes_self)
      then show ?thesis
        by (simp add: content_fidelity_def buffer_copy_seq_bytes seq_bytes_def same)
    qed
  qed
next
  show "buffer_copy_seq dest src 0 mem = Some (0, mem)"
    by (simp add: buffer_copy_seq_bytes copied_total_def)
qed

text \<open>
  The hypotheses of the theorem hold for a two-view destination and a
  three-view source with a zero-length view in the middle.
\<close>

theorem buffer_copy_seq_content_witness:
  "distinct (seq_addrs [\<lparr>buf_data = 20, buf_size = 2\<rparr>, \<lparr>buf_data = 30, buf_size = 3\<rparr>])
   \<and> set (seq_addrs [\<lparr>buf_data = 20, buf_size = 2\<rparr>, \<lparr>buf_data = 30, buf_size = 3\<rparr>])
       \<inter> set (seq_addrs [\<lparr>buf_data = 10, buf_size = 1\<rparr>, \<lparr>buf_data = 11, buf_size = 0\<rparr>,
                            \<lparr>buf_data = 12, buf_size = 3\<rparr>]) = {}
   \<and> content_fidelity [\<lparr>buf_data = 20, buf_size = 2\<rparr>, \<lparr>buf_data = 30, buf_size = 3\<rparr>]
         [\<lparr>buf_data = 10, buf_size = 1\<rparr>, \<lparr>buf_data = 11, buf_size = 0\<rparr>, \<lparr>buf_data = 12, buf_size = 3\<rparr>]
         3 iota_mem"
proof -
  have h: "distinct (seq_addrs [\<lparr>buf_data = 20, buf_size = 2\<rparr>, \<lparr>buf_data = 30, buf_size = 3\<rparr>])
   \<and> set (seq_addrs [\<lparr>buf_data = 20, buf_size = 2\<rparr>, \<lparr>buf_data = 30, buf_size = 3\<rparr>])
       \<inter> set (seq_addrs [\<lparr>buf_data = 10, buf_size = 1\<rparr>, \<lparr>buf_data = 11, buf_size = 0\<rparr>,
                            \<lparr>buf_data = 12, buf_size = 3\<rparr>]) = {}"
    by (simp add: seq_addrs_def buf_addrs_def)
  with buffer_copy_seq_content show ?thesis by blast
qed

text \<open>
  The claim as stated fails when the destination starts one byte into the
  source: the second assignment reads the byte the first one wrote, so the
  destination ends as \<open>[10, 10]\<close> where the source held \<open>[10, 11]\<close>, and the
  source's second byte is overwritten.
\<close>

theorem overlapping_views_counterexample:
  "buffer_copy_seq [\<lparr>buf_data = 11, buf_size = 2\<rparr>] [\<lparr>buf_data = 10, buf_size = 2\<rparr>] 2 iota_mem
     = Some (2, iota_mem(11 := 10, 12 := 10))
   \<and> seq_bytes iota_mem [\<lparr>buf_data = 10, buf_size = 2\<rparr>] = [10, 11]
   \<and> seq_bytes (iota_mem(11 := 10, 12 := 10)) [\<lparr>buf_data = 11, buf_size = 2\<rparr>] = [10, 10]
   \<and> seq_bytes (iota_mem(11 := 10, 12 := 10)) [\<lparr>buf_data = 10, buf_size = 2\<rparr>] = [10, 10]
   \<and> \<not> content_fidelity [\<lparr>buf_data = 11, buf_size = 2\<rparr>] [\<lparr>buf_data = 10, buf_size = 2\<rparr>] 2 iota_mem"
  by (simp add: content_fidelity_def engine_eval bytes_eval)

text \<open>
  The single-view copy in full: what it returns, the assignments it makes,
  the bytes it leaves alone, and the contents of the destination when it
  does not start inside the bytes being read.
\<close>

lemma buffer_copy_effect:
  "\<exists>n mem'. buffer_copy dest src max_copy mem = (n, mem')
     \<and> n = min (buf_size src) (min (buf_size dest) max_copy)
     \<and> mem' = copy_bytes (zip (take (unat n) (buf_addrs dest)) (take (unat n) (buf_addrs src))) mem
     \<and> (\<forall>a. a \<notin> set (take (unat n) (buf_addrs dest)) \<longrightarrow> mem' a = mem a)
     \<and> (buf_data dest \<le> buf_data src \<or> buf_data src + unat n \<le> buf_data dest \<longrightarrow>
          map mem' (take (unat n) (buf_addrs dest)) = map mem (take (unat n) (buf_addrs src)))"
proof -
  define n where "n = min (buf_size src) (min (buf_size dest) max_copy)"
  define mem' where "mem' = copy_bytes (take (unat n) (zip (buf_addrs dest) (buf_addrs src))) mem"
  have le: "unat n \<le> unat (buf_size dest)" "unat n \<le> unat (buf_size src)"
    by (simp_all add: n_def unat_min)
  have run: "buffer_copy dest src max_copy mem = (n, mem')"
    by (simp add: buffer_copy_bytes n_def mem'_def)
  have zip: "take (unat n) (zip (buf_addrs dest) (buf_addrs src))
               = zip (take (unat n) (buf_addrs dest)) (take (unat n) (buf_addrs src))"
    by (rule take_zip)
  have td: "take (unat n) (buf_addrs dest) = [buf_data dest ..< buf_data dest + unat n]"
    and ts: "take (unat n) (buf_addrs src) = [buf_data src ..< buf_data src + unat n]"
    using le by (simp_all add: buf_addrs_def)
  have fst: "map fst (take (unat n) (zip (buf_addrs dest) (buf_addrs src)))
               = take (unat n) (buf_addrs dest)"
    using le by (intro map_fst_take_zip) simp_all
  have out: "\<forall>a. a \<notin> set (take (unat n) (buf_addrs dest)) \<longrightarrow> mem' a = mem a"
  proof (intro allI impI)
    fix a assume a: "a \<notin> set (take (unat n) (buf_addrs dest))"
    have "a \<notin> set (map fst (take (unat n) (zip (buf_addrs dest) (buf_addrs src))))"
      unfolding fst by (rule a)
    then show "mem' a = mem a" unfolding mem'_def by (rule copy_bytes_outside)
  qed
  have content: "map mem' (take (unat n) (buf_addrs dest)) = map mem (take (unat n) (buf_addrs src))"
    if ord: "buf_data dest \<le> buf_data src \<or> buf_data src + unat n \<le> buf_data dest"
  proof (rule nth_equalityI)
    show "length (map mem' (take (unat n) (buf_addrs dest)))
            = length (map mem (take (unat n) (buf_addrs src)))"
      using le by simp
  next
    fix i assume "i < length (map mem' (take (unat n) (buf_addrs dest)))"
    with le have i: "i < unat n" by simp
    from copy_bytes_forward_nth [OF ord i, of mem]
    have "mem' (buf_data dest + i) = mem (buf_data src + i)"
      by (simp only: mem'_def zip td ts)
    with i show "map mem' (take (unat n) (buf_addrs dest)) ! i
                   = map mem (take (unat n) (buf_addrs src)) ! i"
      by (simp add: td ts)
  qed
  from run out content show ?thesis
    unfolding n_def [symmetric] by (auto simp: mem'_def zip)
qed

text \<open>
  C2, as the code has it. The claim is stated for every pair of views, but
  the loop assigns lowest address first and has no provision for a
  destination that starts inside the source. What holds for every
  destination view, source view and limit: the single-view
  \<^verbatim>\<open>buffer_copy(dest, src, max)\<close> never fails, returns
  \<open>n = min(src.size(), dest.size(), max)\<close> and changes no byte outside the
  first \<open>n\<close> bytes of \<open>dest\<close>, so with \<open>n = 0\<close> it returns 0 and changes
  nothing. When \<open>dest\<close> starts at or before \<open>src\<close>, or at or after the end of
  the first \<open>n\<close> bytes of \<open>src\<close>, the first \<open>n\<close> bytes of \<open>dest\<close> afterwards
  are the first \<open>n\<close> bytes \<open>src\<close> held before the call, in order.
\<close>

theorem buffer_copy_single_content:
  "\<exists>n mem'. buffer_copy dest src max_copy mem = (n, mem')
     \<and> n = min (buf_size src) (min (buf_size dest) max_copy)
     \<and> (\<forall>a. a \<notin> set (take (unat n) (buf_addrs dest)) \<longrightarrow> mem' a = mem a)
     \<and> (buf_data dest \<le> buf_data src \<or> buf_data src + unat n \<le> buf_data dest \<longrightarrow>
          view_copy_fidelity dest src max_copy mem)"
proof -
  from buffer_copy_effect [of dest src max_copy mem] obtain n mem' where
    run: "buffer_copy dest src max_copy mem = (n, mem')"
    and n: "n = min (buf_size src) (min (buf_size dest) max_copy)"
    and out: "\<forall>a. a \<notin> set (take (unat n) (buf_addrs dest)) \<longrightarrow> mem' a = mem a"
    and content: "buf_data dest \<le> buf_data src \<or> buf_data src + unat n \<le> buf_data dest \<longrightarrow>
          map mem' (take (unat n) (buf_addrs dest)) = map mem (take (unat n) (buf_addrs src))"
    by blast
  from run n content have
    "buf_data dest \<le> buf_data src \<or> buf_data src + unat n \<le> buf_data dest \<longrightarrow>
       view_copy_fidelity dest src max_copy mem"
    by (simp add: view_copy_fidelity_def)
  with run n out show ?thesis by blast
qed

text \<open>
  Fourteen source bytes into a destination of five that lies after them,
  with a limit of fifty: five bytes are copied.
\<close>

theorem buffer_copy_single_content_witness:
  "buf_data \<lparr>buf_data = 10, buf_size = 14\<rparr> + unat (5 :: size_t) \<le> buf_data \<lparr>buf_data = 40, buf_size = 5\<rparr>
   \<and> fst (buffer_copy \<lparr>buf_data = 40, buf_size = 5\<rparr> \<lparr>buf_data = 10, buf_size = 14\<rparr> 50 iota_mem) = 5
   \<and> view_copy_fidelity \<lparr>buf_data = 40, buf_size = 5\<rparr> \<lparr>buf_data = 10, buf_size = 14\<rparr> 50 iota_mem"
  using buffer_copy_single_content [of "\<lparr>buf_data = 40, buf_size = 5\<rparr>" "\<lparr>buf_data = 10, buf_size = 14\<rparr>" 50 iota_mem]
  by auto

text \<open>
  The claim as stated fails when the destination starts one byte into the
  source: each assignment reads the byte the one before it wrote, so the
  destination ends as \<open>[10, 10, 10]\<close> where the source held
  \<open>[10, 11, 12]\<close>.
\<close>

theorem overlapping_view_counterexample:
  "fst (buffer_copy \<lparr>buf_data = 11, buf_size = 3\<rparr> \<lparr>buf_data = 10, buf_size = 3\<rparr> 3 iota_mem) = 3
   \<and> map iota_mem (buf_addrs \<lparr>buf_data = 10, buf_size = 3\<rparr>) = [10, 11, 12]
   \<and> map (snd (buffer_copy \<lparr>buf_data = 11, buf_size = 3\<rparr> \<lparr>buf_data = 10, buf_size = 3\<rparr> 3 iota_mem))
         (buf_addrs \<lparr>buf_data = 11, buf_size = 3\<rparr>) = [10, 10, 10]
   \<and> \<not> view_copy_fidelity \<lparr>buf_data = 11, buf_size = 3\<rparr> \<lparr>buf_data = 10, buf_size = 3\<rparr> 3 iota_mem"
  by (simp add: view_copy_fidelity_def buffer_copy_def copy_loop.simps Let_def buf_addrs_def iota_mem_def)

text \<open>
  The two-argument \<^verbatim>\<open>buffer_copy(dest, src)\<close> returns the smaller of
  \<^verbatim>\<open>buffer_size(dest)\<close> and \<^verbatim>\<open>buffer_size(src)\<close>. When the byte counts of
  both sequences fit \<^verbatim>\<open>std::size_t\<close>, that is the smaller of the two total
  sizes, so one of the two sequences is used up entirely and a destination
  at least as large as the source receives all of it.
\<close>

lemma buffer_copy_all_effect:
  "\<exists>n mem'. buffer_copy_all dest src mem = Some (n, mem')
     \<and> n = min (buffer_size dest) (buffer_size src)
     \<and> (buffer_size src \<le> buffer_size dest \<longrightarrow> n = buffer_size src)
     \<and> (total_size dest < 2 ^ 64 \<and> total_size src < 2 ^ 64 \<longrightarrow>
           unat n = min (total_size dest) (total_size src)
           \<and> (unat n = total_size dest \<or> unat n = total_size src)
           \<and> (total_size src \<le> total_size dest \<longrightarrow> unat n = total_size src))"
proof -
  define m where "m = min (buffer_size dest) (buffer_size src)"
  have m': "(if buffer_size src > buffer_size dest then buffer_size dest else buffer_size src) = m"
    by (auto simp: m_def min_def)
  have "unat m \<le> unat (buffer_size dest)" "unat m \<le> unat (buffer_size src)"
    by (simp_all add: m_def unat_min)
  with unat_buffer_size_le [of dest] unat_buffer_size_le [of src]
  have "copied_total dest src m = unat m"
    by (simp add: copied_total_def)
  then have run: "buffer_copy_all dest src mem
      = Some (m, copy_bytes (take (unat m) (zip (seq_addrs dest) (seq_addrs src))) mem)"
    by (simp add: buffer_copy_all_def Let_def m' buffer_copy_seq_bytes)
  have fit: "unat m = min (total_size dest) (total_size src)"
    if "total_size dest < 2 ^ 64" "total_size src < 2 ^ 64"
    using that by (simp add: m_def unat_min unat_buffer_size_eq)
  have "buffer_size src \<le> buffer_size dest \<longrightarrow> m = buffer_size src"
    by (simp add: m_def min_def)
  with run fit show ?thesis
    unfolding m_def [symmetric] by (auto simp: min_def)
qed

lemma buffer_copy_all_exhausts:
  assumes "total_size dest < 2 ^ 64" and "total_size src < 2 ^ 64"
  shows "exhaustive_count dest src mem
         \<and> (\<exists>n mem'. buffer_copy_all dest src mem = Some (n, mem')
               \<and> (unat n = total_size dest \<or> unat n = total_size src)
               \<and> (total_size src \<le> total_size dest \<longrightarrow> unat n = total_size src))"
proof -
  from buffer_copy_all_effect [of dest src mem] assms obtain n mem' where
    run: "buffer_copy_all dest src mem = Some (n, mem')"
    and n: "unat n = min (total_size dest) (total_size src)"
    and ex: "unat n = total_size dest \<or> unat n = total_size src"
    and le: "total_size src \<le> total_size dest \<longrightarrow> unat n = total_size src"
    by blast
  from run n have "exhaustive_count dest src mem"
    by (simp add: exhaustive_count_def)
  with run ex le show ?thesis by blast
qed

lemma total_size_append: "total_size (as @ bs) = total_size as + total_size bs"
  by (simp add: total_size_def)

lemma total_size_replicate: "total_size (replicate k b) = k * unat (buf_size b)"
  by (simp add: total_size_def sum_list_replicate)

text \<open>
  C3. The claim: the two-argument \<^verbatim>\<open>buffer_copy(dest, src)\<close> returns
  exactly the smaller of the two total sizes and so exhausts one of the
  sequences, as the comment above the overload also promises. The code
  does not where the sum taken by \<^verbatim>\<open>buffer_size\<close> wraps. A destination
  of \<open>2^64 - 1\<close> and 3 bytes has \<^verbatim>\<open>buffer_size\<close> 2, so a 5-byte source is
  cut to 2 bytes. The same happens to a 5-byte destination when the source
  repeats one view of \<open>2^32\<close> bytes \<open>2^32\<close> times and ends with a 2-byte
  view: the call returns 2, and neither sequence is exhausted.
\<close>

theorem buffer_copy_all_size_wraps:
  "total_size [\<lparr>buf_data = 20, buf_size = 18446744073709551615\<rparr>, \<lparr>buf_data = 30, buf_size = 3\<rparr>]
     = 18446744073709551618
   \<and> total_size [\<lparr>buf_data = 10, buf_size = 5\<rparr>] = 5
   \<and> map_option fst (buffer_copy_all
         [\<lparr>buf_data = 20, buf_size = 18446744073709551615\<rparr>, \<lparr>buf_data = 30, buf_size = 3\<rparr>]
         [\<lparr>buf_data = 10, buf_size = 5\<rparr>] iota_mem) = Some 2
   \<and> \<not> exhaustive_count
         [\<lparr>buf_data = 20, buf_size = 18446744073709551615\<rparr>, \<lparr>buf_data = 30, buf_size = 3\<rparr>]
         [\<lparr>buf_data = 10, buf_size = 5\<rparr>] iota_mem
   \<and> total_size (replicate 4294967296 \<lparr>buf_data = 10, buf_size = 4294967296\<rparr>
                   @ [\<lparr>buf_data = 10, buf_size = 2\<rparr>]) = 18446744073709551618
   \<and> total_size [\<lparr>buf_data = 8589934592, buf_size = 5\<rparr>] = 5
   \<and> map_option fst (buffer_copy_all [\<lparr>buf_data = 8589934592, buf_size = 5\<rparr>]
         (replicate 4294967296 \<lparr>buf_data = 10, buf_size = 4294967296\<rparr>
            @ [\<lparr>buf_data = 10, buf_size = 2\<rparr>]) iota_mem) = Some 2
   \<and> \<not> exhaustive_count [\<lparr>buf_data = 8589934592, buf_size = 5\<rparr>]
         (replicate 4294967296 \<lparr>buf_data = 10, buf_size = 4294967296\<rparr>
            @ [\<lparr>buf_data = 10, buf_size = 2\<rparr>]) iota_mem"
proof -
  let ?d1 = "[\<lparr>buf_data = 20, buf_size = 18446744073709551615\<rparr>, \<lparr>buf_data = 30, buf_size = 3\<rparr>]"
  let ?s1 = "[\<lparr>buf_data = 10, buf_size = 5\<rparr>]"
  let ?d2 = "[\<lparr>buf_data = 8589934592, buf_size = 5\<rparr>]"
  let ?s2 = "replicate 4294967296 \<lparr>buf_data = 10, buf_size = 4294967296\<rparr> @ [\<lparr>buf_data = 10, buf_size = 2\<rparr>]"
  have t1: "total_size ?d1 = 18446744073709551618" "total_size ?s1 = 5"
    by (simp_all add: total_size_def)
  have t2: "total_size ?s2 = 18446744073709551618" "total_size ?d2 = 5"
    by (simp_all add: total_size_append total_size_replicate) (simp_all add: total_size_def)
  have b1: "buffer_size ?d1 = 2" "buffer_size ?s1 = 5"
    by (simp_all add: buffer_size_def)
  have b2: "buffer_size ?s2 = 2" "buffer_size ?d2 = 5"
    by (simp_all add: buffer_size_of_nat t2)
  have r1: "map_option fst (buffer_copy_all ?d1 ?s1 iota_mem) = Some 2"
    by (simp add: buffer_copy_all_def Let_def b1 buffer_copy_seq_bytes copied_total_def t1)
  have r2: "map_option fst (buffer_copy_all ?d2 ?s2 iota_mem) = Some 2"
    by (simp add: buffer_copy_all_def Let_def b2 buffer_copy_seq_bytes copied_total_def t2)
  have e1: "\<not> exhaustive_count ?d1 ?s1 iota_mem"
    by (simp add: exhaustive_count_def buffer_copy_all_def Let_def b1 buffer_copy_seq_bytes
        copied_total_def t1)
  have e2: "\<not> exhaustive_count ?d2 ?s2 iota_mem"
    by (simp add: exhaustive_count_def buffer_copy_all_def Let_def b2 buffer_copy_seq_bytes
        copied_total_def t2)
  from t1 t2 r1 r2 e1 e2 show ?thesis by blast
qed

text \<open>
  C4. The count \<^verbatim>\<open>buffer_copy(dest, src, max)\<close> returns is at most the
  total size of the destination, the total size of the source and \<open>max\<close>.
\<close>

theorem buffer_copy_seq_bound:
  "\<exists>n mem'. buffer_copy_seq dest src max_copy mem = Some (n, mem')
      \<and> unat n \<le> min (total_size dest) (min (total_size src) (unat max_copy))"
  by (simp add: buffer_copy_seq_bytes unat_copied_total) (simp add: copied_total_def min_le_iff_disj)



text \<open>
  C6, as the code has it. The claim asks for both offsets to be strictly
  less than the length of the current buffers at the top of every
  iteration; that fails whenever an iterator points to a zero-length
  buffer. What holds at the top of every iteration: each offset is strictly
  less than the length of its current buffer, unless that buffer has length
  zero, and then the offset is zero.
\<close>

theorem offsets_within_current_buffer:
  "\<forall>s \<in> set (loop_states (copy_init dest src max_copy mem)).
      offset_within (src_offset s) (hd (src_iter s))
      \<and> offset_within (dest_offset s) (hd (dest_iter s))"
proof
  fix s assume "s \<in> set (loop_states (copy_init dest src max_copy mem))"
  with loop_states_inv [OF copy_init_inv] have inv: "state_inv s" and c: "loop_cond s"
    by blast+
  from c obtain sb srest db drest where
    it: "src_iter s = sb # srest" "dest_iter s = db # drest"
    by (auto simp: loop_cond_def neq_Nil_conv)
  with inv show "offset_within (src_offset s) (hd (src_iter s))
      \<and> offset_within (dest_offset s) (hd (dest_iter s))"
    by (auto simp: state_inv_def intro: cursor_ok_within)
qed

theorem offsets_within_current_buffer_witness:
  "copy_init [\<lparr>buf_data = 20, buf_size = 2\<rparr>]
       [\<lparr>buf_data = 10, buf_size = 1\<rparr>, \<lparr>buf_data = 11, buf_size = 0\<rparr>] 2 iota_mem
     \<in> set (loop_states (copy_init [\<lparr>buf_data = 20, buf_size = 2\<rparr>]
                  [\<lparr>buf_data = 10, buf_size = 1\<rparr>, \<lparr>buf_data = 11, buf_size = 0\<rparr>] 2 iota_mem))
   \<and> offset_within 0 \<lparr>buf_data = 10, buf_size = 1\<rparr>
   \<and> offset_within 0 \<lparr>buf_data = 20, buf_size = 2\<rparr>"
proof -
  let ?s = "copy_init [\<lparr>buf_data = 20, buf_size = 2\<rparr>]
       [\<lparr>buf_data = 10, buf_size = 1\<rparr>, \<lparr>buf_data = 11, buf_size = 0\<rparr>] 2 iota_mem"
  have m: "?s \<in> set (loop_states ?s)"
    by (subst loop_states.simps) (simp add: loop_cond_def copy_init_def)
  with offsets_within_current_buffer have
    "offset_within (src_offset ?s) (hd (src_iter ?s)) \<and> offset_within (dest_offset ?s) (hd (dest_iter ?s))"
    by blast
  with m show ?thesis by (simp add: copy_init_def)
qed

text \<open>
  A source of a one-byte view followed by a zero-length view: the second
  iteration starts with the source iterator on the zero-length view, where
  the offset 0 is not less than the length 0.
\<close>

theorem zero_length_current_buffer_counterexample:
  "loop_states (copy_init [\<lparr>buf_data = 20, buf_size = 2\<rparr>]
                  [\<lparr>buf_data = 10, buf_size = 1\<rparr>, \<lparr>buf_data = 11, buf_size = 0\<rparr>] 2 iota_mem)
     = [copy_init [\<lparr>buf_data = 20, buf_size = 2\<rparr>]
          [\<lparr>buf_data = 10, buf_size = 1\<rparr>, \<lparr>buf_data = 11, buf_size = 0\<rparr>] 2 iota_mem,
        \<lparr>remaining_to_copy = 1, total_copied = 1,
         dest_iter = [\<lparr>buf_data = 20, buf_size = 2\<rparr>],
         src_iter = [\<lparr>buf_data = 11, buf_size = 0\<rparr>],
         src_offset = 0, dest_offset = 1, heap = iota_mem(20 := 10)\<rparr>]
   \<and> \<not> offsets_strict
         \<lparr>remaining_to_copy = 1, total_copied = 1,
          dest_iter = [\<lparr>buf_data = 20, buf_size = 2\<rparr>],
          src_iter = [\<lparr>buf_data = 11, buf_size = 0\<rparr>],
          src_offset = 0, dest_offset = 1, heap = iota_mem(20 := 10)\<rparr>"
  by (simp add: offsets_strict_def engine_eval iota_mem_def)

text \<open>
  C7. Zero-length buffers do not change the result: the engine returns the
  same count and the same store for a destination, a source, or both with
  their zero-length buffers removed.
\<close>

theorem zero_length_buffers_ignored:
  "buffer_copy_seq (remove_empty dest) src max_copy mem = buffer_copy_seq dest src max_copy mem
   \<and> buffer_copy_seq dest (remove_empty src) max_copy mem = buffer_copy_seq dest src max_copy mem
   \<and> buffer_copy_seq (remove_empty dest) (remove_empty src) max_copy mem
       = buffer_copy_seq dest src max_copy mem"
  by (simp add: buffer_copy_seq_bytes copied_total_def seq_addrs_remove_empty
      total_size_remove_empty)

text \<open>
  C8. At the top of every iteration each offset is at most the size of the
  buffer its iterator points to, so the assertion of \<^verbatim>\<open>remove_prefix\<close>
  holds at both uses of \<^verbatim>\<open>operator+\<close>, the pass completes, and the engine
  never ends in a failed assertion.
\<close>

theorem remove_prefix_assertion_holds:
  "(\<forall>s \<in> set (loop_states (copy_init dest src max_copy mem)).
      src_offset s \<le> buf_size (hd (src_iter s))
      \<and> dest_offset s \<le> buf_size (hd (dest_iter s))
      \<and> remove_prefix (hd (src_iter s)) (src_offset s) \<noteq> None
      \<and> remove_prefix (hd (dest_iter s)) (dest_offset s) \<noteq> None
      \<and> loop_body s \<noteq> None)
   \<and> buffer_copy_seq dest src max_copy mem \<noteq> None"
proof (intro conjI ballI)
  fix s assume "s \<in> set (loop_states (copy_init dest src max_copy mem))"
  with loop_states_inv [OF copy_init_inv] have inv: "state_inv s" and c: "loop_cond s"
    by blast+
  from c obtain sb srest db drest where
    it: "src_iter s = sb # srest" "dest_iter s = db # drest"
    by (auto simp: loop_cond_def neq_Nil_conv)
  with inv have le: "src_offset s \<le> buf_size sb" "dest_offset s \<le> buf_size db"
    by (auto simp: state_inv_def intro: cursor_ok_le)
  with it show "src_offset s \<le> buf_size (hd (src_iter s))"
    and "dest_offset s \<le> buf_size (hd (dest_iter s))"
    and "remove_prefix (hd (src_iter s)) (src_offset s) \<noteq> None"
    and "remove_prefix (hd (dest_iter s)) (dest_offset s) \<noteq> None"
    by (simp_all add: remove_prefix_def)
  from loop_body_defined [OF c inv] show "loop_body s \<noteq> None" by auto
next
  show "buffer_copy_seq dest src max_copy mem \<noteq> None"
    by (simp add: buffer_copy_seq_bytes)
qed

theorem remove_prefix_assertion_holds_witness:
  "copy_init [\<lparr>buf_data = 20, buf_size = 2\<rparr>]
       [\<lparr>buf_data = 10, buf_size = 1\<rparr>, \<lparr>buf_data = 11, buf_size = 0\<rparr>] 2 iota_mem
     \<in> set (loop_states (copy_init [\<lparr>buf_data = 20, buf_size = 2\<rparr>]
                  [\<lparr>buf_data = 10, buf_size = 1\<rparr>, \<lparr>buf_data = 11, buf_size = 0\<rparr>] 2 iota_mem))
   \<and> remove_prefix \<lparr>buf_data = 10, buf_size = 1\<rparr> 0 \<noteq> None
   \<and> remove_prefix \<lparr>buf_data = 20, buf_size = 2\<rparr> 0 \<noteq> None
   \<and> buffer_copy_seq [\<lparr>buf_data = 20, buf_size = 2\<rparr>]
       [\<lparr>buf_data = 10, buf_size = 1\<rparr>, \<lparr>buf_data = 11, buf_size = 0\<rparr>] 2 iota_mem \<noteq> None"
proof -
  let ?s = "copy_init [\<lparr>buf_data = 20, buf_size = 2\<rparr>]
       [\<lparr>buf_data = 10, buf_size = 1\<rparr>, \<lparr>buf_data = 11, buf_size = 0\<rparr>] 2 iota_mem"
  have m: "?s \<in> set (loop_states ?s)"
    by (subst loop_states.simps) (simp add: loop_cond_def copy_init_def)
  with remove_prefix_assertion_holds have
    "remove_prefix (hd (src_iter ?s)) (src_offset ?s) \<noteq> None
     \<and> remove_prefix (hd (dest_iter ?s)) (dest_offset ?s) \<noteq> None"
    by blast
  moreover from remove_prefix_assertion_holds have
    "buffer_copy_seq [\<lparr>buf_data = 20, buf_size = 2\<rparr>]
       [\<lparr>buf_data = 10, buf_size = 1\<rparr>, \<lparr>buf_data = 11, buf_size = 0\<rparr>] 2 iota_mem \<noteq> None"
    by blast
  ultimately show ?thesis using m by (simp add: copy_init_def)
qed

text \<open>
  C9. The single-view \<^verbatim>\<open>buffer_copy\<close> returns the count and the store that
  the sequence engine returns for the two views taken as one-element
  sequences.
\<close>

theorem single_view_is_one_element_sequence:
  "buffer_copy_seq (single_buffer_seq dest) (single_buffer_seq src) max_copy mem
     = Some (buffer_copy dest src max_copy mem)"
proof -
  have "copied_total [dest] [src] max_copy
          = unat (min (buf_size src) (min (buf_size dest) max_copy))"
    by (simp add: copied_total_def total_size_def unat_min min.commute min.left_commute)
  then show ?thesis
    by (simp add: buffer_copy_seq_bytes buffer_copy_bytes single_buffer_seq_def)
qed

section \<open>Slicing\<close>

text \<open>
  C10. For \<open>part \<le> size\<close>, \<^verbatim>\<open>split(part)\<close> passes its assertions and
  returns \<open>(left, right)\<close> with \<open>left\<close> starting where the view starts and
  \<open>part\<close> bytes long, \<open>right\<close> starting \<open>part\<close> bytes further and holding the
  remaining \<open>size - part\<close> bytes. The addresses of the two halves, one after
  the other, are exactly the addresses of the view: no gap, no overlap. The
  view itself is a value and is not changed.
\<close>

theorem split_tiles:
  assumes "part \<le> buf_size b"
  shows "\<exists>left right. split_b b part = Some (left, right)
           \<and> buf_data left = buf_data b \<and> buf_size left = part
           \<and> buf_data right = buf_data b + unat part
           \<and> buf_size right = buf_size b - part
           \<and> unat (buf_size left) + unat (buf_size right) = unat (buf_size b)
           \<and> buf_addrs left @ buf_addrs right = buf_addrs b"
proof -
  from assms have le: "unat part \<le> unat (buf_size b)"
    by (simp add: word_le_nat_alt)
  have sub: "unat (buf_size b - part) = unat (buf_size b) - unat part"
    using assms by (rule unat_diff_le)
  have "[buf_data b ..< buf_data b + unat part + (unat (buf_size b) - unat part)]
          = [buf_data b ..< buf_data b + unat part]
              @ [buf_data b + unat part ..< buf_data b + unat part + (unat (buf_size b) - unat part)]"
    by (rule upt_add_eq_append) simp
  with le have tile: "[buf_data b ..< buf_data b + unat part]
                @ [buf_data b + unat part ..< buf_data b + unat (buf_size b)]
              = [buf_data b ..< buf_data b + unat (buf_size b)]"
    by simp
  show ?thesis
    using assms le sub tile
    by (simp add: split_b_def first_b_def last_b_def buffer_plus_def remove_prefix_def
        word_diff_le_self buf_addrs_def)
qed

theorem split_tiles_witness:
  "(2::size_t) \<le> buf_size \<lparr>buf_data = 10, buf_size = 5\<rparr>
   \<and> split_b \<lparr>buf_data = 10, buf_size = 5\<rparr> 2
       = Some (\<lparr>buf_data = 10, buf_size = 2\<rparr>, \<lparr>buf_data = 12, buf_size = 3\<rparr>)"
proof -
  have h: "(2::size_t) \<le> buf_size \<lparr>buf_data = 10, buf_size = 5\<rparr>" by simp
  from split_tiles [OF h] obtain left right where
    s: "split_b \<lparr>buf_data = 10, buf_size = 5\<rparr> 2 = Some (left, right)"
    and l: "buf_data left = 10" "buf_size left = 2"
    and r: "buf_data right = 10 + unat (2::size_t)" "buf_size right = 5 - 2"
    by auto
  have "left = \<lparr>buf_data = 10, buf_size = 2\<rparr>" using l by simp
  moreover have "right = \<lparr>buf_data = 12, buf_size = 3\<rparr>" using r by simp
  ultimately show ?thesis using h s by simp
qed

end
